theory Spec2Isabelle
  imports Main "HOL-Library.Multiset" "HOL-Library.Sublist"
begin

section \<open>Python values used by huffman.py\<close>

text \<open>
  A Python \<open>str\<close> is a sequence of Unicode code points; a character is modelled by its
  code point, so that \<open>ord(ch)\<close> is the character itself and \<open>chr(n)\<close> is \<open>n\<close>.
  The space is 32, the letters \<open>A\<close> to \<open>Z\<close> are 65 to 90, the bits \<open>"0"\<close> and \<open>"1"\<close>
  are 48 and 49.
\<close>

type_synonym pychar = nat
type_synonym pystr = "nat list"

definition py :: "string \<Rightarrow> pystr" where
  "py s = map of_char s"

datatype error = IndexError | AttributeError

text \<open>
  List subscripts: a negative index counts from the end, an index outside
  \<open>-len .. len - 1\<close> raises \<open>IndexError\<close>.
\<close>

definition py_index :: "'a list \<Rightarrow> int \<Rightarrow> error + nat" where
  "py_index xs i =
     (if 0 \<le> i \<and> i < int (length xs) then Inr (nat i)
      else if i < 0 \<and> - int (length xs) \<le> i then Inr (nat (int (length xs) + i))
      else Inl IndexError)"

definition getitem :: "'a list \<Rightarrow> int \<Rightarrow> error + 'a" where
  "getitem xs i = (case py_index xs i of Inl e \<Rightarrow> Inl e | Inr j \<Rightarrow> Inr (xs ! j))"

definition setitem :: "'a list \<Rightarrow> int \<Rightarrow> 'a \<Rightarrow> error + 'a list" where
  "setitem xs i v = (case py_index xs i of Inl e \<Rightarrow> Inl e | Inr j \<Rightarrow> Inr (xs[j := v]))"

text \<open>
  \<open>str.isalpha\<close> and \<open>str.upper\<close> of CPython, character by character, for the code
  points below 256 (ASCII and Latin-1) and for the two characters that \<open>upper\<close> maps
  them to outside that range. \<open>upper\<close> is the full case mapping: the sharp s (223)
  becomes \<open>SS\<close>, the micro sign (181) becomes U+039C, y with diaeresis (255) becomes
  U+0178. The Unicode tables beyond are not part of this model: such code points are
  left unchanged and taken as not alphabetic, and the statements below that depend on
  these two functions are about code points below 256 only.
\<close>

definition isalpha :: "pychar \<Rightarrow> bool" where
  "isalpha c \<longleftrightarrow>
     (65 \<le> c \<and> c \<le> 90) \<or> (97 \<le> c \<and> c \<le> 122) \<or> c = 170 \<or> c = 181 \<or> c = 186 \<or>
     (192 \<le> c \<and> c \<le> 214) \<or> (216 \<le> c \<and> c \<le> 246) \<or> (248 \<le> c \<and> c \<le> 255) \<or>
     c = 376 \<or> c = 924"

definition upper_char :: "pychar \<Rightarrow> pystr" where
  "upper_char c =
     (if 97 \<le> c \<and> c \<le> 122 then [c - 32]
      else if c = 181 then [924]
      else if c = 223 then [83, 83]
      else if (224 \<le> c \<and> c \<le> 246) \<or> (248 \<le> c \<and> c \<le> 254) then [c - 32]
      else if c = 255 then [376]
      else [c])"

definition upper :: "pystr \<Rightarrow> pystr" where
  "upper s = concat (map upper_char s)"

section \<open>The tree nodes\<close>

text \<open>
  Modelled from the spec: the class \<open>Node\<close> of the module \<open>Node\<close>, which huffman.py
  imports and which is not among the source files. The spec describes a node as a
  tagged variant: a leaf with a weight and a symbol and no children, or an internal
  node with a weight, two children and no symbol. \<open>Node(w, s)\<close> is \<open>Leaf w s\<close>;
  \<open>Node(w)\<close> followed by \<open>set_left\<close> and \<open>set_right\<close> is \<open>Internal w l r\<close>. The
  getters of an absent field return \<open>None\<close>.
\<close>

datatype node = Leaf int pychar | Internal int node node

fun get_frequency :: "node \<Rightarrow> int" where
  "get_frequency (Leaf w s) = w"
| "get_frequency (Internal w l r) = w"

fun get_symbol :: "node \<Rightarrow> pychar option" where
  "get_symbol (Leaf w s) = Some s"
| "get_symbol (Internal w l r) = None"

fun get_left :: "node \<Rightarrow> node option" where
  "get_left (Leaf w s) = None"
| "get_left (Internal w l r) = Some l"

fun get_right :: "node \<Rightarrow> node option" where
  "get_right (Leaf w s) = None"
| "get_right (Internal w l r) = Some r"

section \<open>The functions of huffman.py\<close>

subsection \<open>filter_uppercase_and_spaces\<close>

definition filter_uppercase_and_spaces :: "pystr \<Rightarrow> pystr" where
  "filter_uppercase_and_spaces input_string =
     filter (\<lambda>char. isalpha char \<or> char = 32) (upper input_string)"

subsection \<open>count_frequencies\<close>

text \<open>
  The loop over the characters, with the table as its state. Both the read and the
  write of \<open>frequencies[index]\<close> follow Python's subscript rules.
\<close>

fun count_loop :: "pystr \<Rightarrow> int list \<Rightarrow> error + int list" where
  "count_loop [] frequencies = Inr frequencies"
| "count_loop (ch # rest) frequencies =
     (if ch \<noteq> 32 then
        (case getitem frequencies (int ch - 65) of
           Inl e \<Rightarrow> Inl e
         | Inr v \<Rightarrow>
            (case setitem frequencies (int ch - 65) (v + 1) of
               Inl e \<Rightarrow> Inl e
             | Inr frequencies' \<Rightarrow> count_loop rest frequencies'))
      else count_loop rest frequencies)"

definition count_frequencies :: "pystr \<Rightarrow> error + int list" where
  "count_frequencies input_string = count_loop input_string (replicate 26 0)"

subsection \<open>initialize_forest\<close>

text \<open>
  The loop over \<open>range(26)\<close>: \<open>frequencies[i]\<close> raises \<open>IndexError\<close> on a table
  shorter than 26 entries; \<open>sum(frequencies)\<close> adds up the whole list.
\<close>

fun letters_loop :: "int list \<Rightarrow> nat list \<Rightarrow> node list \<Rightarrow> error + node list" where
  "letters_loop frequencies [] forest = Inr forest"
| "letters_loop frequencies (i # rest) forest =
     (if i < length frequencies then
        letters_loop frequencies rest
          (if frequencies ! i > 0 then forest @ [Leaf (frequencies ! i) (i + 65)] else forest)
      else Inl IndexError)"

definition initialize_forest :: "int list \<Rightarrow> error + node list" where
  "initialize_forest frequencies =
     (case letters_loop frequencies [0..<26] [] of
        Inl e \<Rightarrow> Inl e
      | Inr forest \<Rightarrow> Inr (forest @ [Leaf (max (sum_list frequencies) 1) 32]))"

subsection \<open>get_smallest\<close>

text \<open>
  The scan for the index of the smallest frequency, then the removal of that position.
  The result is the node and the forest that the in-place update leaves behind. On an
  empty forest \<open>forest[0]\<close> raises \<open>IndexError\<close>.
\<close>

fun smallest_loop :: "node list \<Rightarrow> nat list \<Rightarrow> nat \<Rightarrow> nat" where
  "smallest_loop forest [] smallest_index = smallest_index"
| "smallest_loop forest (i # rest) smallest_index =
     smallest_loop forest rest
       (if get_frequency (forest ! i) < get_frequency (forest ! smallest_index)
        then i else smallest_index)"

definition get_smallest :: "node list \<Rightarrow> error + (node \<times> node list)" where
  "get_smallest forest =
     (let smallest_index = smallest_loop forest [1..<length forest] 0 in
      if smallest_index < length forest then
        Inr (forest ! smallest_index,
             take smallest_index forest @ drop (smallest_index + 1) forest)
      else Inl IndexError)"

subsection \<open>build_huffman_tree\<close>

function merge_loop :: "node list \<Rightarrow> error + node" where
  "merge_loop forest =
     (if length forest > 1 then
        (case get_smallest forest of
           Inl e \<Rightarrow> Inl e
         | Inr (left, forest1) \<Rightarrow>
            (case get_smallest forest1 of
               Inl e \<Rightarrow> Inl e
             | Inr (right, forest2) \<Rightarrow>
                merge_loop
                  (forest2 @ [Internal (get_frequency left + get_frequency right) left right])))
      else (case forest of [] \<Rightarrow> Inl IndexError | root # _ \<Rightarrow> Inr root))"
  by pat_completeness auto
termination
proof (relation "measure length")
  show "wf (measure length)" by simp
next
  fix forest :: "node list" and x2 left forest1 y right forest2
  assume "get_smallest forest = Inr x2" "(left, forest1) = x2"
    "get_smallest forest1 = Inr y" "(right, forest2) = y"
  moreover have "Suc (length f') = length f" if "get_smallest f = Inr (n, f')" for f n f'
    using that by (auto simp: get_smallest_def Let_def split: if_splits)
  ultimately have "Suc (length forest1) = length forest" "Suc (length forest2) = length forest1"
    by metis+
  then show "(forest2 @ [Internal (get_frequency left + get_frequency right) left right], forest)
      \<in> measure length"
    by simp
qed

definition build_huffman_tree :: "int list \<Rightarrow> error + node" where
  "build_huffman_tree frequencies =
     (case initialize_forest frequencies of
        Inl e \<Rightarrow> Inl e
      | Inr forest \<Rightarrow> merge_loop forest)"

subsection \<open>build_encoding_table\<close>

text \<open>
  The nested \<open>traverse\<close> writes into the enclosing \<open>table\<close>; here the table is passed
  in and returned.
\<close>

fun traverse :: "node \<Rightarrow> pystr \<Rightarrow> pystr list \<Rightarrow> error + pystr list" where
  "traverse (Leaf w s) pre table =
     (if s = 32 then setitem table 26 pre else setitem table (int s - 65) pre)"
| "traverse (Internal w l r) pre table =
     (case traverse l (pre @ [48]) table of
        Inl e \<Rightarrow> Inl e
      | Inr table' \<Rightarrow> traverse r (pre @ [49]) table')"

definition build_encoding_table :: "node \<Rightarrow> error + pystr list" where
  "build_encoding_table huffman_tree_root = traverse huffman_tree_root [] (replicate 27 [])"

subsection \<open>encode\<close>

fun encode_loop :: "pystr \<Rightarrow> pystr list \<Rightarrow> pystr \<Rightarrow> error + pystr" where
  "encode_loop [] encoding_table encoded = Inr encoded"
| "encode_loop (ch # rest) encoding_table encoded =
     (case (if ch = 32 then getitem encoding_table 26
            else getitem encoding_table (int ch - 65)) of
        Inl e \<Rightarrow> Inl e
      | Inr code \<Rightarrow> encode_loop rest encoding_table (encoded @ code))"

definition encode :: "pystr \<Rightarrow> pystr list \<Rightarrow> error + pystr" where
  "encode input_string encoding_table = encode_loop input_string encoding_table []"

subsection \<open>decode\<close>

text \<open>
  The cursor \<open>node\<close> and the text \<open>result\<close> are the state of the loop. Every
  character other than \<open>"0"\<close> steps to the right. Stepping below a leaf gives \<open>None\<close>,
  and the following \<open>node.get_symbol()\<close> raises \<open>AttributeError\<close>.
\<close>

fun decode_loop :: "pystr \<Rightarrow> node \<Rightarrow> node \<Rightarrow> pystr \<Rightarrow> error + pystr" where
  "decode_loop [] huffman_root node result = Inr result"
| "decode_loop (b # rest) huffman_root node result =
     (case (if b = 48 then get_left node else get_right node) of
        None \<Rightarrow> Inl AttributeError
      | Some node' \<Rightarrow>
         (case get_symbol node' of
            Some s \<Rightarrow> decode_loop rest huffman_root huffman_root (result @ [s])
          | None \<Rightarrow> decode_loop rest huffman_root node' result))"

definition decode :: "pystr \<Rightarrow> node \<Rightarrow> error + pystr" where
  "decode encoded_string huffman_root = decode_loop encoded_string huffman_root huffman_root []"

subsection \<open>The driver block\<close>

text \<open>
  The pipeline of the \<open>__main__\<close> block from the filtered text on: frequencies, tree,
  table, encoded bits, decoded text. An error of any stage is the result.
\<close>

definition roundtrip :: "pystr \<Rightarrow> error + pystr" where
  "roundtrip text =
     (case count_frequencies text of
        Inl e \<Rightarrow> Inl e
      | Inr freqs \<Rightarrow>
         (case build_huffman_tree freqs of
            Inl e \<Rightarrow> Inl e
          | Inr tree \<Rightarrow>
             (case build_encoding_table tree of
                Inl e \<Rightarrow> Inl e
              | Inr table \<Rightarrow>
                 (case encode text table of
                    Inl e \<Rightarrow> Inl e
                  | Inr encoded \<Rightarrow> decode encoded tree))))"

section \<open>Notions used in the statements\<close>

text \<open>
  None of the following is code of the program; they are the vocabulary of the
  properties: the alphabet, the leaves of a tree, the root-to-leaf paths, the table
  slot of a symbol.
\<close>

definition in_alphabet :: "pychar \<Rightarrow> bool" where
  "in_alphabet c \<longleftrightarrow> c = 32 \<or> (65 \<le> c \<and> c \<le> 90)"

text \<open>The symbols and the weights of the leaves, from left to right.\<close>

fun symbols :: "node \<Rightarrow> pychar list" where
  "symbols (Leaf w s) = [s]"
| "symbols (Internal w l r) = symbols l @ symbols r"

fun leaf_weights :: "node \<Rightarrow> int list" where
  "leaf_weights (Leaf w s) = [w]"
| "leaf_weights (Internal w l r) = leaf_weights l @ leaf_weights r"

text \<open>
  Every leaf with the path that leads to it from the root, \<open>"0"\<close> for a step to the
  left and \<open>"1"\<close> for a step to the right, after the bits \<open>pre\<close>.
\<close>

fun codes :: "node \<Rightarrow> pystr \<Rightarrow> (pychar \<times> pystr) list" where
  "codes (Leaf w s) pre = [(s, pre)]"
| "codes (Internal w l r) pre = codes l (pre @ [48]) @ codes r (pre @ [49])"

text \<open>The table index of a symbol of the alphabet: 26 for the space, \<open>ord - 65\<close> for a letter.\<close>

definition slot :: "pychar \<Rightarrow> nat" where
  "slot s = (if s = 32 then 26 else s - 65)"

text \<open>
  The table position that Python's subscript reaches for any character that
  \<open>encode\<close> does not fail on: a negative \<open>ord - 65\<close> counts from the end of the 27 slots.
\<close>

definition accepted :: "pychar \<Rightarrow> bool" where
  "accepted c \<longleftrightarrow> c = 32 \<or> (38 \<le> c \<and> c \<le> 91)"

definition table_index :: "pychar \<Rightarrow> nat" where
  "table_index c = (if c = 32 then 26 else if 65 \<le> c then c - 65 else c - 38)"

text \<open>The letter indices with a positive frequency, and the symbols of the initial forest.\<close>

definition present :: "int list \<Rightarrow> nat list" where
  "present fs = filter (\<lambda>i. fs ! i > 0) [0..<26]"

definition alphabet_of :: "int list \<Rightarrow> pychar list" where
  "alphabet_of fs = map (\<lambda>i. i + 65) (present fs) @ [32]"

text \<open>Index \<open>k\<close> holds the first minimum of the frequencies among the first \<open>n\<close> nodes.\<close>

definition first_min :: "node list \<Rightarrow> nat \<Rightarrow> nat \<Rightarrow> bool" where
  "first_min forest n k \<longleftrightarrow>
     k < n \<and> (\<forall>j<n. get_frequency (forest ! k) \<le> get_frequency (forest ! j)) \<and>
     (\<forall>j<k. get_frequency (forest ! k) < get_frequency (forest ! j))"

text \<open>Letters and upper case within ASCII.\<close>

definition ascii_letter :: "pychar \<Rightarrow> bool" where
  "ascii_letter c \<longleftrightarrow> (65 \<le> c \<and> c \<le> 90) \<or> (97 \<le> c \<and> c \<le> 122)"

definition ascii_upper :: "pychar \<Rightarrow> pychar" where
  "ascii_upper c = (if 97 \<le> c \<and> c \<le> 122 then c - 32 else c)"

section \<open>Auxiliary lemmas\<close>

subsection \<open>Python subscripts on the 27-slot table\<close>

lemma slot_inj: "in_alphabet a \<Longrightarrow> in_alphabet b \<Longrightarrow> slot a = slot b \<Longrightarrow> a = b"
  by (auto simp: slot_def in_alphabet_def split: if_splits)

lemma slot_lt: "in_alphabet a \<Longrightarrow> slot a < 27"
  by (auto simp: slot_def in_alphabet_def)

lemma setitem_slot:
  "in_alphabet s \<Longrightarrow> length table = 27 \<Longrightarrow>
   (if s = 32 then setitem table 26 c else setitem table (int s - 65) c) = Inr (table[slot s := c])"
  by (auto simp: setitem_def py_index_def slot_def in_alphabet_def nat_diff_distrib')

lemma getitem_slot:
  "in_alphabet s \<Longrightarrow> length table = 27 \<Longrightarrow>
   (if s = 32 then getitem table 26 else getitem table (int s - 65)) = Inr (table ! slot s)"
  by (auto simp: getitem_def py_index_def slot_def in_alphabet_def nat_diff_distrib')

lemma getitem_accepted:
  assumes "length table = 27"
  shows "(if c = 32 then getitem table 26 else getitem table (int c - 65))
     = (if accepted c then Inr (table ! table_index c) else Inl IndexError)"
proof -
  have "c \<noteq> 32 \<Longrightarrow> 65 \<le> c \<Longrightarrow> c \<le> 91 \<Longrightarrow> nat (int c - 65) = c - 65" by simp
  moreover have "c \<noteq> 32 \<Longrightarrow> 38 \<le> c \<Longrightarrow> c < 65 \<Longrightarrow> nat (27 + (int c - 65)) = c - 38" by simp
  ultimately show ?thesis
    using assms by (auto simp: getitem_def py_index_def accepted_def table_index_def)
qed

subsection \<open>The initial forest\<close>

lemma letters_loop_eq:
  "\<forall>i \<in> set is. i < length fs \<Longrightarrow>
   letters_loop fs is acc = Inr (acc @ [Leaf (fs ! i) (i + 65). i \<leftarrow> is, fs ! i > 0])"
  by (induction "is" arbitrary: acc) auto

lemma letters_loop_short:
  "\<exists>i \<in> set is. \<not> i < length fs \<Longrightarrow> letters_loop fs is acc = Inl IndexError"
  by (induction "is" arbitrary: acc) auto

lemma initialize_forest_eq:
  "26 \<le> length fs \<Longrightarrow>
   initialize_forest fs =
     Inr ([Leaf (fs ! i) (i + 65). i \<leftarrow> [0..<26], fs ! i > 0] @ [Leaf (max (sum_list fs) 1) 32])"
  by (simp add: initialize_forest_def letters_loop_eq)

lemma initialize_forest_short:
  "length fs < 26 \<Longrightarrow> initialize_forest fs = Inl IndexError"
proof -
  assume "length fs < 26"
  then have "\<exists>i \<in> set [0..<26]. \<not> i < length fs" by auto
  then show ?thesis by (simp add: initialize_forest_def letters_loop_short del: upt.simps)
qed

lemma concat_map_if:
  "concat (map (\<lambda>i. if P i then [f i] else []) xs) = map f (filter P xs)"
  by (induction xs) auto

lemma initialize_forest_present:
  "26 \<le> length fs \<Longrightarrow>
   initialize_forest fs =
     Inr (map (\<lambda>i. Leaf (fs ! i) (i + 65)) (present fs) @ [Leaf (max (sum_list fs) 1) 32])"
  by (simp add: initialize_forest_eq concat_map_if present_def del: upt.simps)

lemma distinct_alphabet_of: "distinct (alphabet_of fs)"
  by (auto simp: alphabet_of_def present_def distinct_map inj_on_def simp del: upt.simps)

lemma in_alphabet_of: "c \<in> set (alphabet_of fs) \<Longrightarrow> in_alphabet c"
  by (auto simp: alphabet_of_def present_def in_alphabet_def simp del: upt.simps)

lemma filter_nth_upt: "map (nth xs) (filter (\<lambda>i. P (xs ! i)) [0..<length xs]) = filter P xs"
proof -
  have "filter P (map (nth xs) [0..<length xs]) = map (nth xs) (filter (P \<circ> nth xs) [0..<length xs])"
    by (rule filter_map)
  then show ?thesis by (simp add: map_nth comp_def)
qed

lemma sum_list_filter_pos:
  fixes xs :: "int list"
  shows "\<forall>x \<in> set xs. 0 \<le> x \<Longrightarrow> sum_list (filter (\<lambda>x. 0 < x) xs) = sum_list xs"
  by (induction xs) auto

lemma present_weights:
  assumes "length fs = 26" "\<forall>x \<in> set fs. 0 \<le> x"
  shows "sum_list (map (nth fs) (present fs)) = sum_list fs"
proof -
  have "map (nth fs) (present fs) = filter (\<lambda>x. 0 < x) fs"
    using filter_nth_upt[of fs "\<lambda>x. 0 < x"] assms(1) by (simp add: present_def del: upt.simps)
  then show ?thesis using sum_list_filter_pos[OF assms(2)] by simp
qed

subsection \<open>The minimum scan\<close>

lemma smallest_loop_first_min:
  "first_min forest a k \<Longrightarrow> a \<le> n \<Longrightarrow> first_min forest n (smallest_loop forest [a..<n] k)"
proof (induction "n - a" arbitrary: a k)
  case 0
  then show ?case by simp
next
  case (Suc d)
  then have an: "a < n" by simp
  let ?k = "if get_frequency (forest ! a) < get_frequency (forest ! k) then a else k"
  have "first_min forest (Suc a) ?k"
    using Suc.prems(1) unfolding first_min_def
    by (auto simp: less_Suc_eq)
  moreover have "d = n - Suc a" using Suc.hyps(2) by simp
  ultimately have "first_min forest n (smallest_loop forest [Suc a..<n] ?k)"
    using Suc.hyps(1) an by simp
  then show ?case using an by (simp add: upt_conv_Cons)
qed

lemma get_smallest_first_min:
  assumes "forest \<noteq> []"
  shows "\<exists>k. first_min forest (length forest) k \<and>
     get_smallest forest = Inr (forest ! k, take k forest @ drop (Suc k) forest)"
proof -
  have "first_min forest 1 0" by (simp add: first_min_def)
  moreover have "1 \<le> length forest" using assms by (cases forest) auto
  ultimately have "first_min forest (length forest) (smallest_loop forest [1..<length forest] 0)"
    by (rule smallest_loop_first_min)
  then show ?thesis
    by (auto simp: get_smallest_def Let_def first_min_def)
qed

lemma get_smallest_mset:
  assumes "forest \<noteq> []"
  shows "\<exists>n rest. get_smallest forest = Inr (n, rest) \<and> mset forest = add_mset n (mset rest)"
proof -
  obtain k where k: "first_min forest (length forest) k"
    "get_smallest forest = Inr (forest ! k, take k forest @ drop (Suc k) forest)"
    using get_smallest_first_min[OF assms] by blast
  then have "k < length forest" by (simp add: first_min_def)
  then have "forest = take k forest @ forest ! k # drop (Suc k) forest"
    by (simp add: id_take_nth_drop)
  then have "mset forest = add_mset (forest ! k) (mset (take k forest @ drop (Suc k) forest))"
    by (metis mset.simps(2) mset_append union_mset_add_mset_right)
  with k(2) show ?thesis by blast
qed

lemma merge_step:
  assumes "length forest > 1"
  shows "\<exists>l f1 r f2. get_smallest forest = Inr (l, f1) \<and> get_smallest f1 = Inr (r, f2) \<and>
     mset forest = add_mset l (add_mset r (mset f2))"
proof -
  from assms have "forest \<noteq> []" by auto
  then obtain l f1 where 1: "get_smallest forest = Inr (l, f1)" "mset forest = add_mset l (mset f1)"
    using get_smallest_mset by blast
  then have "Suc (length f1) = length forest" by (metis size_mset size_add_mset)
  with assms have "f1 \<noteq> []" by auto
  then obtain r f2 where 2: "get_smallest f1 = Inr (r, f2)" "mset f1 = add_mset r (mset f2)"
    using get_smallest_mset by blast
  with 1 show ?thesis by simp
qed

subsection \<open>The merge loop\<close>

lemma merge_loop_additive:
  fixes \<phi> :: "node \<Rightarrow> 'a::comm_monoid_add"
  assumes add: "\<And>l r. \<phi> (Internal (get_frequency l + get_frequency r) l r) = \<phi> l + \<phi> r"
  shows "forest \<noteq> [] \<Longrightarrow> \<exists>t. merge_loop forest = Inr t \<and> \<phi> t = (\<Sum>n\<in>#mset forest. \<phi> n)"
proof (induction forest rule: merge_loop.induct)
  case (1 forest)
  show ?case
  proof (cases "length forest > 1")
    case True
    then obtain l f1 r f2 where s: "get_smallest forest = Inr (l, f1)" "get_smallest f1 = Inr (r, f2)"
      "mset forest = add_mset l (add_mset r (mset f2))"
      using merge_step by blast
    let ?f = "f2 @ [Internal (get_frequency l + get_frequency r) l r]"
    have "\<exists>t. merge_loop ?f = Inr t \<and> \<phi> t = (\<Sum>n\<in>#mset ?f. \<phi> n)"
      using "1.IH"[OF True s(1) _ s(2)] by simp
    then obtain t where t: "merge_loop ?f = Inr t" "\<phi> t = (\<Sum>n\<in>#mset ?f. \<phi> n)" by blast
    have "merge_loop forest = Inr t"
      using True s t(1) by (subst merge_loop.simps) simp
    moreover have "\<phi> t = (\<Sum>n\<in>#mset forest. \<phi> n)"
      using t(2) s(3) by (simp add: add ac_simps)
    ultimately show ?thesis by blast
  next
    case False
    with "1.prems" obtain n where "forest = [n]" by (cases forest) auto
    then show ?thesis by (subst merge_loop.simps) simp
  qed
qed

lemma merge_loop_sum_list:
  fixes \<phi> :: "node \<Rightarrow> 'a::comm_monoid_add"
  assumes "\<And>l r. \<phi> (Internal (get_frequency l + get_frequency r) l r) = \<phi> l + \<phi> r"
    and "forest \<noteq> []"
  shows "\<exists>t. merge_loop forest = Inr t \<and> \<phi> t = sum_list (map \<phi> forest)"
proof -
  have "(\<Sum>n\<in>#mset forest. \<phi> n) = sum_list (map \<phi> forest)"
    by (metis mset_map sum_mset_sum_list)
  with merge_loop_additive[of \<phi> forest, OF assms] show ?thesis by simp
qed

lemma sum_list_mset_symbols: "sum_list (map (\<lambda>n. mset (symbols n)) forest) = mset (concat (map symbols forest))"
  by (induction forest) auto

lemma merge_loop_symbols:
  assumes "forest \<noteq> []"
  shows "\<exists>t. merge_loop forest = Inr t \<and> mset (symbols t) = mset (concat (map symbols forest))"
  using merge_loop_sum_list[of "\<lambda>n. mset (symbols n)" forest] assms
  by (simp add: sum_list_mset_symbols)

lemma merge_loop_weight:
  assumes "forest \<noteq> []"
  shows "\<exists>t. merge_loop forest = Inr t \<and> get_frequency t = sum_list (map get_frequency forest)"
  using merge_loop_sum_list[of get_frequency forest] assms by simp

lemma merge_loop_leaf_weights:
  assumes "forest \<noteq> []"
  shows "\<exists>t. merge_loop forest = Inr t \<and>
    sum_list (leaf_weights t) = sum_list (map (\<lambda>n. sum_list (leaf_weights n)) forest)"
  using merge_loop_sum_list[of "\<lambda>n. sum_list (leaf_weights n)" forest] assms by simp

lemma build_symbols:
  assumes "26 \<le> length fs"
  shows "\<exists>t. build_huffman_tree fs = Inr t \<and> mset (symbols t) = mset (alphabet_of fs)"
proof -
  let ?forest = "map (\<lambda>i. Leaf (fs ! i) (i + 65)) (present fs) @ [Leaf (max (sum_list fs) 1) 32]"
  have "concat (map symbols ?forest) = alphabet_of fs"
    by (simp add: alphabet_of_def comp_def)
  moreover have "?forest \<noteq> []" by simp
  ultimately have "\<exists>t. merge_loop ?forest = Inr t \<and> mset (symbols t) = mset (alphabet_of fs)"
    using merge_loop_symbols[of ?forest] by simp
  then show ?thesis
    by (simp add: build_huffman_tree_def initialize_forest_present[OF assms])
qed

lemma build_symbols_facts:
  assumes "build_huffman_tree fs = Inr t"
  shows "26 \<le> length fs" "distinct (symbols t)" "set (symbols t) = set (alphabet_of fs)"
    "length (symbols t) = Suc (length (present fs))"
proof -
  show len: "26 \<le> length fs"
  proof (rule ccontr)
    assume "\<not> 26 \<le> length fs"
    then have "initialize_forest fs = Inl IndexError" by (simp add: initialize_forest_short)
    with assms show False by (simp add: build_huffman_tree_def)
  qed
  from build_symbols[OF len] assms have m: "mset (symbols t) = mset (alphabet_of fs)" by auto
  show "distinct (symbols t)" using m distinct_alphabet_of by (metis mset_eq_imp_distinct_iff)
  show "set (symbols t) = set (alphabet_of fs)" using m by (rule mset_eq_setD)
  show "length (symbols t) = Suc (length (present fs))"
    using mset_eq_length[OF m] by (simp add: alphabet_of_def)
qed

lemma build_weight:
  assumes "26 \<le> length fs"
  shows "\<exists>t. build_huffman_tree fs = Inr t \<and>
     get_frequency t = sum_list (map (nth fs) (present fs)) + max (sum_list fs) 1 \<and>
     sum_list (leaf_weights t) = sum_list (map (nth fs) (present fs)) + max (sum_list fs) 1"
proof -
  let ?forest = "map (\<lambda>i. Leaf (fs ! i) (i + 65)) (present fs) @ [Leaf (max (sum_list fs) 1) 32]"
  have ne: "?forest \<noteq> []" by simp
  obtain t where t: "merge_loop ?forest = Inr t" "get_frequency t = sum_list (map get_frequency ?forest)"
    using merge_loop_weight[OF ne] by blast
  moreover have "sum_list (leaf_weights t) = sum_list (map (\<lambda>n. sum_list (leaf_weights n)) ?forest)"
    using merge_loop_leaf_weights[OF ne] t(1) by auto
  ultimately show ?thesis
    by (simp add: build_huffman_tree_def initialize_forest_present[OF assms] comp_def)
qed

lemma symbols_two: "2 \<le> length (symbols t) \<Longrightarrow> get_symbol t = None"
  by (cases t) auto

subsection \<open>Paths and the table\<close>

lemma codes_fst: "map fst (codes t pre) = symbols t"
  by (induction t arbitrary: pre) auto

lemma codes_pre: "codes t pre = map (\<lambda>(s, c). (s, pre @ c)) (codes t [])"
proof (induction t arbitrary: pre)
  case (Leaf w s)
  show ?case by simp
next
  case (Internal w l r)
  show ?case
    by (simp add: Internal.IH[of "pre @ [48]"] Internal.IH[of "pre @ [49]"]
        Internal.IH[of "[48]"] Internal.IH[of "[49]"] case_prod_unfold comp_def)
qed

lemma codes_prefix_free:
  assumes "(a, ca) \<in> set (codes t pre)" "(b, cb) \<in> set (codes t pre)" "a \<noteq> b"
  shows "\<not> prefix ca cb"
  using assms
proof (induction t arbitrary: pre)
  case (Leaf w s)
  then show ?case by simp
next
  case (Internal w l r)
  have l: "\<And>x c. (x, c) \<in> set (codes l (pre @ [48])) \<Longrightarrow> \<exists>c'. c = pre @ 48 # c'"
    by (subst (asm) codes_pre) auto
  have r: "\<And>x c. (x, c) \<in> set (codes r (pre @ [49])) \<Longrightarrow> \<exists>c'. c = pre @ 49 # c'"
    by (subst (asm) codes_pre) auto
  from Internal.prems(1,2) consider
      "(a, ca) \<in> set (codes l (pre @ [48]))" "(b, cb) \<in> set (codes l (pre @ [48]))"
    | "(a, ca) \<in> set (codes r (pre @ [49]))" "(b, cb) \<in> set (codes r (pre @ [49]))"
    | "(a, ca) \<in> set (codes l (pre @ [48]))" "(b, cb) \<in> set (codes r (pre @ [49]))"
    | "(a, ca) \<in> set (codes r (pre @ [49]))" "(b, cb) \<in> set (codes l (pre @ [48]))"
    by auto
  then show ?case
  proof cases
    case 1
    then show ?thesis using Internal.IH(1) Internal.prems(3) by blast
  next
    case 2
    then show ?thesis using Internal.IH(2) Internal.prems(3) by blast
  next
    case 3
    then show ?thesis using l r by (fastforce simp: prefix_def)
  next
    case 4
    then show ?thesis using l r by (fastforce simp: prefix_def)
  qed
qed

lemma traverse_table:
  assumes "\<forall>s \<in> set (symbols t). in_alphabet s" "length table = 27"
  shows "\<exists>table'. traverse t pre table = Inr table' \<and> length table' = 27 \<and>
     (\<forall>i. i \<notin> slot ` set (symbols t) \<longrightarrow> table' ! i = table ! i) \<and>
     (distinct (symbols t) \<longrightarrow> (\<forall>(s, c) \<in> set (codes t pre). table' ! slot s = c))"
  using assms
proof (induction t arbitrary: pre table)
  case (Leaf w s)
  then have "in_alphabet s" by simp
  then show ?case
    using Leaf.prems(2) setitem_slot[of s table pre] slot_lt[of s] by auto
next
  case (Internal w l r)
  from Internal.prems obtain t1 where t1: "traverse l (pre @ [48]) table = Inr t1" "length t1 = 27"
    "\<forall>i. i \<notin> slot ` set (symbols l) \<longrightarrow> t1 ! i = table ! i"
    "distinct (symbols l) \<longrightarrow> (\<forall>(s, c) \<in> set (codes l (pre @ [48])). t1 ! slot s = c)"
    using Internal.IH(1)[of table "pre @ [48]"] by auto
  from Internal.prems t1(2) obtain t2 where t2: "traverse r (pre @ [49]) t1 = Inr t2" "length t2 = 27"
    "\<forall>i. i \<notin> slot ` set (symbols r) \<longrightarrow> t2 ! i = t1 ! i"
    "distinct (symbols r) \<longrightarrow> (\<forall>(s, c) \<in> set (codes r (pre @ [49])). t2 ! slot s = c)"
    using Internal.IH(2)[of t1 "pre @ [49]"] by auto
  have "traverse (Internal w l r) pre table = Inr t2" using t1(1) t2(1) by simp
  moreover have "\<forall>i. i \<notin> slot ` set (symbols (Internal w l r)) \<longrightarrow> t2 ! i = table ! i"
    using t1(3) t2(3) by (simp add: image_Un)
  moreover have "distinct (symbols (Internal w l r)) \<longrightarrow>
      (\<forall>(s, c) \<in> set (codes (Internal w l r) pre). t2 ! slot s = c)"
  proof
    assume d: "distinct (symbols (Internal w l r))"
    show "\<forall>(s, c) \<in> set (codes (Internal w l r) pre). t2 ! slot s = c"
    proof (clarify)
      fix s c assume "(s, c) \<in> set (codes (Internal w l r) pre)"
      then consider (L) "(s, c) \<in> set (codes l (pre @ [48]))" | (R) "(s, c) \<in> set (codes r (pre @ [49]))"
        by auto
      then show "t2 ! slot s = c"
      proof cases
        case L
        then have sl: "s \<in> set (symbols l)" by (metis codes_fst fst_conv image_eqI set_map)
        with d have "s \<notin> set (symbols r)" by auto
        then have "slot s \<notin> slot ` set (symbols r)"
          using slot_inj sl Internal.prems(1) by auto
        then have "t2 ! slot s = t1 ! slot s" using t2(3) by blast
        also have "\<dots> = c" using t1(4) d L by auto
        finally show ?thesis .
      next
        case R
        then show ?thesis using t2(4) d by auto
      qed
    qed
  qed
  ultimately show ?case using t2(2) by blast
qed

lemma build_table:
  assumes "build_huffman_tree fs = Inr t"
  shows "\<exists>table. build_encoding_table t = Inr table \<and> length table = 27 \<and>
     (\<forall>i<27. i \<notin> slot ` set (symbols t) \<longrightarrow> table ! i = []) \<and>
     (\<forall>s \<in> set (symbols t). (s, table ! slot s) \<in> set (codes t []))"
proof -
  note f = build_symbols_facts[OF assms]
  have al: "\<forall>s \<in> set (symbols t). in_alphabet s" using f(3) in_alphabet_of by auto
  obtain table where tb: "traverse t [] (replicate 27 []) = Inr table" "length table = 27"
    "\<forall>i. i \<notin> slot ` set (symbols t) \<longrightarrow> table ! i = replicate 27 [] ! i"
    "\<forall>(s, c) \<in> set (codes t []). table ! slot s = c"
    using traverse_table[OF al, of "replicate 27 []" "[]"] f(2) by auto
  have "\<forall>i<27. i \<notin> slot ` set (symbols t) \<longrightarrow> table ! i = []"
    using tb(3) by simp
  moreover have "\<forall>s \<in> set (symbols t). (s, table ! slot s) \<in> set (codes t [])"
  proof
    fix s assume "s \<in> set (symbols t)"
    then have "s \<in> fst ` set (codes t [])" by (metis codes_fst set_map)
    then obtain c where c: "(s, c) \<in> set (codes t [])" by auto
    with tb(4) have "table ! slot s = c" by auto
    with c show "(s, table ! slot s) \<in> set (codes t [])" by simp
  qed
  ultimately show ?thesis using tb(1,2) by (simp add: build_encoding_table_def)
qed

subsection \<open>Encoding\<close>

lemma encode_loop_eq:
  assumes "\<forall>c \<in> set s. in_alphabet c" "length table = 27"
  shows "encode_loop s table acc = Inr (acc @ concat (map (\<lambda>c. table ! slot c) s))"
  using assms
proof (induction s arbitrary: acc)
  case Nil
  show ?case by simp
next
  case (Cons c s)
  then have "in_alphabet c" by simp
  from getitem_slot[OF this Cons.prems(2)] Cons show ?case by simp
qed

lemma encode_loop_accepted:
  assumes "length table = 27"
  shows "encode_loop s table acc =
     (if \<forall>c \<in> set s. accepted c then Inr (acc @ concat (map (\<lambda>c. table ! table_index c) s))
      else Inl IndexError)"
proof (induction s arbitrary: acc)
  case Nil
  show ?case by simp
next
  case (Cons c s)
  show ?case using getitem_accepted[OF assms, of c] Cons by simp
qed

lemma encode_loop_append:
  "encode_loop (xs @ ys) table acc =
     (case encode_loop xs table acc of Inl e \<Rightarrow> Inl e | Inr a \<Rightarrow> encode_loop ys table a)"
  by (induction xs arbitrary: acc) (auto split: sum.splits)

lemma encode_spaces: "encode_loop (replicate n 32) (replicate 27 []) acc = Inr acc"
  by (induction n) (auto simp: getitem_def py_index_def)

subsection \<open>Decoding\<close>

lemma decode_loop_path:
  assumes "(s, c) \<in> set (codes n [])" "get_symbol n = None"
  shows "decode_loop (c @ rest) root n result = decode_loop rest root root (result @ [s])"
  using assms
proof (induction n arbitrary: c)
  case (Leaf w x)
  then show ?case by simp
next
  case (Internal w l r)
  from Internal.prems(1) consider (L) "(s, c) \<in> set (codes l [48])" | (R) "(s, c) \<in> set (codes r [49])"
    by auto
  then show ?case
  proof cases
    case L
    then obtain c' where c': "c = 48 # c'" "(s, c') \<in> set (codes l [])"
      by (subst (asm) codes_pre) auto
    show ?thesis
    proof (cases l)
      case (Leaf w' x)
      with c' show ?thesis by simp
    next
      case (Internal w' l' r')
      then have "get_symbol l = None" by simp
      from Internal.IH(1)[OF c'(2) this] show ?thesis using c'(1) Internal by simp
    qed
  next
    case R
    then obtain c' where c': "c = 49 # c'" "(s, c') \<in> set (codes r [])"
      by (subst (asm) codes_pre) auto
    show ?thesis
    proof (cases r)
      case (Leaf w' x)
      with c' show ?thesis by simp
    next
      case (Internal w' l' r')
      then have "get_symbol r = None" by simp
      from Internal.IH(2)[OF c'(2) this] show ?thesis using c'(1) Internal by simp
    qed
  qed
qed

lemma decode_loop_codes_rest:
  assumes "get_symbol root = None" "\<forall>x \<in> set xs. (x, code x) \<in> set (codes root [])"
  shows "decode_loop (concat (map code xs) @ rest) root root result
     = decode_loop rest root root (result @ xs)"
  using assms(2)
proof (induction xs arbitrary: result)
  case Nil
  show ?case by simp
next
  case (Cons x xs)
  then have "(x, code x) \<in> set (codes root [])" by simp
  from decode_loop_path[OF this assms(1)] Cons show ?case by simp
qed

lemma decode_loop_total:
  assumes "get_symbol root = None"
  shows "get_symbol node = None \<Longrightarrow> \<exists>out. decode_loop bits root node result = Inr out"
proof (induction bits arbitrary: node result)
  case Nil
  show ?case by simp
next
  case (Cons b bits)
  then obtain w l r where n: "node = Internal w l r" by (cases node) auto
  let ?next = "if b = 48 then l else r"
  show ?case
  proof (cases "get_symbol ?next")
    case None
    from Cons.IH[OF None, of result] show ?thesis using n None by (auto split: if_splits)
  next
    case (Some s)
    from Cons.IH[OF assms, of "result @ [s]"] show ?thesis using n Some by (auto split: if_splits)
  qed
qed

lemma decode_loop_partial:
  assumes "(y, c) \<in> set (codes n [])" "strict_prefix p c"
  shows "decode_loop p root n result = Inr result"
  using assms
proof (induction n arbitrary: p c)
  case (Leaf w x)
  then show ?case by simp
next
  case (Internal w l r)
  show ?case
  proof (cases p)
    case Nil
    then show ?thesis by simp
  next
    case (Cons b p')
    from Internal.prems(1) consider (L) "(y, c) \<in> set (codes l [48])" | (R) "(y, c) \<in> set (codes r [49])"
      by auto
    then show ?thesis
    proof cases
      case L
      then obtain c' where c': "c = 48 # c'" "(y, c') \<in> set (codes l [])"
        by (subst (asm) codes_pre) auto
      with Internal.prems(2) Cons have b: "b = 48" "strict_prefix p' c'" by auto
      show ?thesis
      proof (cases l)
        case (Leaf w' x)
        with c'(2) b(2) show ?thesis by simp
      next
        case (Internal w' l' r')
        with Internal.IH(1)[OF c'(2) b(2)] Cons b(1) show ?thesis by simp
      qed
    next
      case R
      then obtain c' where c': "c = 49 # c'" "(y, c') \<in> set (codes r [])"
        by (subst (asm) codes_pre) auto
      with Internal.prems(2) Cons have b: "b = 49" "strict_prefix p' c'" by auto
      show ?thesis
      proof (cases r)
        case (Leaf w' x)
        with c'(2) b(2) show ?thesis by simp
      next
        case (Internal w' l' r')
        with Internal.IH(2)[OF c'(2) b(2)] Cons b(1) show ?thesis by simp
      qed
    qed
  qed
qed

subsection \<open>Counting and filtering\<close>

lemma count_loop_eq:
  assumes "\<forall>c \<in> set s. in_alphabet c" "length fs = 26"
  shows "count_loop s fs = Inr (map (\<lambda>i. fs ! i + int (count_list s (i + 65))) [0..<26])"
  using assms
proof (induction s arbitrary: fs)
  case Nil
  have "map (\<lambda>i. fs ! i) [0..<length fs] = fs" by (simp add: map_nth)
  with Nil have "map (\<lambda>i. fs ! i) [0..<26] = fs" by simp
  then show ?case by (simp del: upt.simps)
next
  case (Cons ch s)
  show ?case
  proof (cases "ch = 32")
    case True
    then show ?thesis using Cons by (simp del: upt.simps)
  next
    case False
    with Cons.prems have ch: "65 \<le> ch" "ch \<le> 90" by (auto simp: in_alphabet_def)
    let ?k = "ch - 65"
    have k: "?k < 26" using ch by simp
    have g: "getitem fs (int ch - 65) = Inr (fs ! ?k)"
      using ch Cons.prems(2) by (auto simp: getitem_def py_index_def nat_diff_distrib')
    have st: "setitem fs (int ch - 65) (fs ! ?k + 1) = Inr (fs[?k := fs ! ?k + 1])"
      using ch Cons.prems(2) by (auto simp: setitem_def py_index_def nat_diff_distrib')
    have "count_loop (ch # s) fs = count_loop s (fs[?k := fs ! ?k + 1])"
      using False g st by simp
    also have "\<dots> = Inr (map (\<lambda>i. (fs[?k := fs ! ?k + 1]) ! i + int (count_list s (i + 65))) [0..<26])"
      using Cons.IH[of "fs[?k := fs ! ?k + 1]"] Cons.prems by simp
    also have "map (\<lambda>i. (fs[?k := fs ! ?k + 1]) ! i + int (count_list s (i + 65))) [0..<26]
        = map (\<lambda>i. fs ! i + int (count_list (ch # s) (i + 65))) [0..<26]"
    proof (rule map_cong[OF refl])
      fix i assume "i \<in> set [0..<26]"
      then have "i < 26" by simp
      then show "(fs[?k := fs ! ?k + 1]) ! i + int (count_list s (i + 65))
          = fs ! i + int (count_list (ch # s) (i + 65))"
        using ch Cons.prems(2) by (auto simp: nth_list_update)
    qed
    finally show ?thesis .
  qed
qed

lemma count_frequencies_eq:
  assumes "\<forall>c \<in> set s. in_alphabet c"
  shows "count_frequencies s = Inr (map (\<lambda>i. int (count_list s (i + 65))) [0..<26])"
  using count_loop_eq[OF assms, of "replicate 26 0"]
  by (simp add: count_frequencies_def del: upt.simps cong: map_cong)

lemma count_spaces: "count_frequencies (replicate n 32) = Inr (replicate 26 0)"
proof -
  have "count_loop (replicate n 32) fs = Inr fs" for fs by (induction n) auto
  then show ?thesis by (simp add: count_frequencies_def)
qed

lemma filter_ascii:
  assumes "\<forall>c \<in> set s. c < 128"
  shows "filter_uppercase_and_spaces s = map ascii_upper (filter (\<lambda>c. ascii_letter c \<or> c = 32) s)"
  using assms
proof (induction s)
  case Nil
  show ?case by (simp add: filter_uppercase_and_spaces_def upper_def)
next
  case (Cons c s)
  then have c: "c < 128" by simp
  have u: "upper_char c = [ascii_upper c]" using c by (auto simp: upper_char_def ascii_upper_def)
  have a: "(isalpha (ascii_upper c) \<or> ascii_upper c = 32) = (ascii_letter c \<or> c = 32)"
    using c by (auto simp: isalpha_def ascii_upper_def ascii_letter_def)
  show ?case using Cons u a by (simp add: filter_uppercase_and_spaces_def upper_def)
qed


subsection \<open>The whole pipeline\<close>

lemma tree_zero: "build_huffman_tree (replicate 26 0) = Inr (Leaf 1 32)"
  by code_simp

lemma table_leaf: "build_encoding_table (Leaf 1 32) = Inr (replicate 27 [])"
  by code_simp

lemma roundtrip_with_letter:
  assumes norm: "\<forall>c \<in> set s. in_alphabet c" and letter: "\<exists>c \<in> set s. c \<noteq> 32"
  shows "roundtrip s = Inr s"
proof -
  let ?fs = "map (\<lambda>i. int (count_list s (i + 65))) [0..<26]"
  have cf: "count_frequencies s = Inr ?fs" by (rule count_frequencies_eq[OF norm])
  have len: "26 \<le> length ?fs" by simp
  obtain t where t: "build_huffman_tree ?fs = Inr t" using build_symbols[OF len] by blast
  note f = build_symbols_facts[OF t]
  obtain table where tb: "build_encoding_table t = Inr table" "length table = 27"
    "\<forall>s \<in> set (symbols t). (s, table ! slot s) \<in> set (codes t [])"
    using build_table[OF t] by blast
  have pres: "\<And>c. c \<in> set s \<Longrightarrow> c \<noteq> 32 \<Longrightarrow> c - 65 \<in> set (present ?fs)"
  proof -
    fix c assume c: "c \<in> set s" "c \<noteq> 32"
    with norm have r: "65 \<le> c" "c \<le> 90" by (auto simp: in_alphabet_def)
    then have "c - 65 < 26" by simp
    moreover have "0 < count_list s c" using c(1) count_list_0_iff[of s c] by simp
    ultimately show "c - 65 \<in> set (present ?fs)"
      using r by (simp add: present_def del: upt.simps)
  qed
  have sub: "set s \<subseteq> set (symbols t)"
  proof
    fix c assume c: "c \<in> set s"
    show "c \<in> set (symbols t)"
    proof (cases "c = 32")
      case True
      then show ?thesis by (simp add: f(3) alphabet_of_def)
    next
      case False
      from pres[OF c False] have "c - 65 \<in> set (present ?fs)" .
      moreover have "65 \<le> c" using c False norm by (auto simp: in_alphabet_def)
      ultimately have "c \<in> (\<lambda>i. i + 65) ` set (present ?fs)" by force
      then show ?thesis by (simp add: f(3) alphabet_of_def)
    qed
  qed
  from letter obtain c where "c \<in> set s" "c \<noteq> 32" by blast
  then have "present ?fs \<noteq> []" using pres by fastforce
  then have "2 \<le> length (symbols t)" using f(4) by (cases "present ?fs") auto
  then have root: "get_symbol t = None" by (rule symbols_two)
  have enc: "encode s table = Inr (concat (map (\<lambda>c. table ! slot c) s))"
    using encode_loop_eq[OF norm tb(2), of "[]"] by (simp add: encode_def)
  have "\<forall>x \<in> set s. (x, table ! slot x) \<in> set (codes t [])" using sub tb(3) by blast
  then have dec: "decode (concat (map (\<lambda>c. table ! slot c) s)) t = Inr s"
    using decode_loop_codes_rest[OF root, of s "\<lambda>c. table ! slot c" "[]" "[]"] by (simp add: decode_def)
  show ?thesis by (simp add: roundtrip_def cf t tb(1) enc dec del: upt.simps)
qed

section \<open>The claims\<close>

subsection \<open>C1: round trip\<close>

text \<open>
  C1 states that decoding the encoding of a normalized string \<open>s\<close>, with the tree and the
  table built from the frequencies of \<open>s\<close>, returns \<open>s\<close>. The program loses every string
  that consists of spaces only: the tree is the single space leaf, the code of the space
  is empty, \<open>encode\<close> returns no bits and \<open>decode\<close> returns the empty text. (For a
  normalized string with at least one letter the round trip holds, lemma
  \<open>roundtrip_with_letter\<close>.)
\<close>

theorem roundtrip_spaces_lost:
  "roundtrip (replicate (Suc n) 32) = Inr [] \<and>
   roundtrip (replicate (Suc n) 32) \<noteq> Inr (replicate (Suc n) 32)"
proof -
  have "roundtrip (replicate (Suc n) 32) = Inr []"
    unfolding roundtrip_def
    by (simp only: count_spaces tree_zero table_leaf encode_def encode_spaces sum.case
        decode_def decode_loop.simps)
  then show ?thesis by simp
qed

subsection \<open>C2: the input of three spaces\<close>

text \<open>
  C2, the input \<open>"   "\<close>: the frequency table is 26 zeros, the forest is the space leaf
  of weight 1 alone, the tree is that leaf, the table holds 27 empty codes. The last part
  of the claim fails: the encoding is the empty bit-string and decoding it gives the
  empty text, not the three spaces.
\<close>

theorem all_spaces_scenario:
  "count_frequencies (py ''   '') = Inr (replicate 26 0) \<and>
   initialize_forest (replicate 26 0) = Inr [Leaf 1 32] \<and>
   build_huffman_tree (replicate 26 0) = Inr (Leaf 1 32) \<and>
   build_encoding_table (Leaf 1 32) = Inr (replicate 27 []) \<and>
   encode (py ''   '') (replicate 27 []) = Inr [] \<and>
   decode [] (Leaf 1 32) = Inr [] \<and>
   roundtrip (py ''   '') = Inr [] \<and>
   roundtrip (py ''   '') \<noteq> Inr (py ''   '')"
  by code_simp

subsection \<open>C3: bits that end in the middle of a path\<close>

text \<open>
  C3 states that \<open>decode\<close> fails on a bit-string that is not a sequence of whole
  root-to-leaf paths. On the tree built for one \<open>A\<close> and one \<open>B\<close> the codes are \<open>0\<close> for
  the space, \<open>10\<close> and \<open>11\<close> for the letters; the bits \<open>01\<close> end in the middle of a path,
  and \<open>decode\<close> returns one space.
\<close>

theorem decode_partial_counterexample:
  "build_huffman_tree [1, 1, 0, 0, 0, 0, 0, 0, 0, 0, 0, 0, 0, 0, 0, 0, 0, 0, 0, 0, 0, 0, 0, 0, 0, 0]
     = Inr (Internal 4 (Leaf 2 32) (Internal 2 (Leaf 1 65) (Leaf 1 66))) \<and>
   codes (Internal 4 (Leaf 2 32) (Internal 2 (Leaf 1 65) (Leaf 1 66))) []
     = [(32, py ''0''), (65, py ''10''), (66, py ''11'')] \<and>
   decode (py ''01'') (Internal 4 (Leaf 2 32) (Internal 2 (Leaf 1 65) (Leaf 1 66))) = Inr (py '' '')"
  by code_simp

text \<open>
  C3 as the program has it: on a tree whose root is an internal node \<open>decode\<close> returns a
  text for every bit-string; and when the bits are whole paths (the codes of the symbols
  \<open>xs\<close>) followed by a proper beginning \<open>p\<close> of a path, the result is \<open>xs\<close>: the bits
  after the last whole path are dropped without an error.
\<close>

theorem decode_never_rejects:
  assumes "get_symbol root = None"
  shows "(\<exists>out. decode bits root = Inr out) \<and>
     ((\<forall>x \<in> set xs. (x, code x) \<in> set (codes root [])) \<and> (y, c) \<in> set (codes root []) \<and>
        strict_prefix p c \<longrightarrow>
      decode (concat (map code xs) @ p) root = Inr xs)"
proof
  show "\<exists>out. decode bits root = Inr out"
    using decode_loop_total[OF assms assms] by (simp add: decode_def)
  show "(\<forall>x \<in> set xs. (x, code x) \<in> set (codes root [])) \<and> (y, c) \<in> set (codes root []) \<and>
        strict_prefix p c \<longrightarrow> decode (concat (map code xs) @ p) root = Inr xs"
  proof
    assume h: "(\<forall>x \<in> set xs. (x, code x) \<in> set (codes root [])) \<and> (y, c) \<in> set (codes root []) \<and>
        strict_prefix p c"
    then have "decode_loop (concat (map code xs) @ p) root root []
        = decode_loop p root root ([] @ xs)"
      using decode_loop_codes_rest[OF assms, of xs code p "[]"] by blast
    also have "\<dots> = Inr xs" using decode_loop_partial[of y c root p root xs] h by simp
    finally show "decode (concat (map code xs) @ p) root = Inr xs" by (simp add: decode_def)
  qed
qed

theorem decode_never_rejects_witness:
  "get_symbol (Internal 4 (Leaf 2 32) (Internal 2 (Leaf 1 65) (Leaf 1 66))) = None \<and>
   (32, [48]) \<in> set (codes (Internal 4 (Leaf 2 32) (Internal 2 (Leaf 1 65) (Leaf 1 66))) []) \<and>
   (65, [49, 48]) \<in> set (codes (Internal 4 (Leaf 2 32) (Internal 2 (Leaf 1 65) (Leaf 1 66))) []) \<and>
   strict_prefix [49] [49, 48 :: nat] \<and>
   (\<exists>out. decode [48, 49] (Internal 4 (Leaf 2 32) (Internal 2 (Leaf 1 65) (Leaf 1 66))) = Inr out) \<and>
   decode ([48] @ [49]) (Internal 4 (Leaf 2 32) (Internal 2 (Leaf 1 65) (Leaf 1 66))) = Inr [32]"
  using decode_never_rejects
    [of "Internal 4 (Leaf 2 32) (Internal 2 (Leaf 1 65) (Leaf 1 66))" "[48, 49]" "[32]" "\<lambda>x. [48]"
        65 "[49, 48]" "[49]"]
  by simp

subsection \<open>C4: the weight of the root\<close>

text \<open>
  C4: for a frequency table of 26 non-negative integers the tree is built, the weight
  of its root is the sum of the weights of its leaves, and it is the sum of the
  frequencies plus the maximum of that sum and 1.
\<close>

theorem root_weight_invariant:
  assumes "length fs = 26" "\<forall>x \<in> set fs. 0 \<le> x"
  shows "\<exists>t. build_huffman_tree fs = Inr t \<and>
     get_frequency t = sum_list (leaf_weights t) \<and>
     get_frequency t = sum_list fs + max (sum_list fs) 1"
proof -
  have "26 \<le> length fs" using assms(1) by simp
  from build_weight[OF this] present_weights[OF assms] show ?thesis by auto
qed

theorem root_weight_invariant_witness:
  "length [0, 0, 0, 1, 1, 0, 0, 1, 0, 0, 0, 3, 0, 0, 2, 0, 0, 1, 0, 0, 0, 0, 1, 0, 0, 0 :: int] = 26 \<and>
   list_all (\<lambda>x. 0 \<le> x) [0, 0, 0, 1, 1, 0, 0, 1, 0, 0, 0, 3, 0, 0, 2, 0, 0, 1, 0, 0, 0, 0, 1, 0, 0, 0 :: int] \<and>
   (\<exists>t. build_huffman_tree [0, 0, 0, 1, 1, 0, 0, 1, 0, 0, 0, 3, 0, 0, 2, 0, 0, 1, 0, 0, 0, 0, 1, 0, 0, 0] = Inr t \<and>
     get_frequency t = sum_list (leaf_weights t) \<and> get_frequency t = 20)"
  using root_weight_invariant
    [of "[0, 0, 0, 1, 1, 0, 0, 1, 0, 0, 0, 3, 0, 0, 2, 0, 0, 1, 0, 0, 0, 0, 1, 0, 0, 0]"]
  by simp

subsection \<open>C5: the table is prefix-free\<close>

text \<open>
  C5: for the tree built from a frequency table, the encoding table is built, and for
  any two distinct symbols at leaves of the tree neither table entry is a prefix of the
  other.
\<close>

theorem prefix_free_table:
  assumes "build_huffman_tree fs = Inr t"
  shows "\<exists>table. build_encoding_table t = Inr table \<and>
     (\<forall>a \<in> set (symbols t). \<forall>b \<in> set (symbols t). a \<noteq> b \<longrightarrow>
        \<not> prefix (table ! slot a) (table ! slot b) \<and> \<not> prefix (table ! slot b) (table ! slot a))"
proof -
  obtain table where tb: "build_encoding_table t = Inr table"
    "\<forall>s \<in> set (symbols t). (s, table ! slot s) \<in> set (codes t [])"
    using build_table[OF assms] by blast
  have "\<not> prefix (table ! slot a) (table ! slot b)"
    if "a \<in> set (symbols t)" "b \<in> set (symbols t)" "a \<noteq> b" for a b
    using codes_prefix_free[of a "table ! slot a" t "[]" b "table ! slot b"] tb(2) that by blast
  then have "\<forall>a \<in> set (symbols t). \<forall>b \<in> set (symbols t). a \<noteq> b \<longrightarrow>
        \<not> prefix (table ! slot a) (table ! slot b) \<and> \<not> prefix (table ! slot b) (table ! slot a)"
    by (metis (no_types))
  with tb(1) show ?thesis by blast
qed

theorem prefix_free_table_witness:
  "build_huffman_tree [1, 1, 0, 0, 0, 0, 0, 0, 0, 0, 0, 0, 0, 0, 0, 0, 0, 0, 0, 0, 0, 0, 0, 0, 0, 0]
     = Inr (Internal 4 (Leaf 2 32) (Internal 2 (Leaf 1 65) (Leaf 1 66))) \<and>
   (\<exists>table. build_encoding_table (Internal 4 (Leaf 2 32) (Internal 2 (Leaf 1 65) (Leaf 1 66))) = Inr table \<and>
      \<not> prefix (table ! slot 32) (table ! slot 65) \<and> \<not> prefix (table ! slot 65) (table ! slot 32))"
proof -
  have h: "build_huffman_tree [1, 1, 0, 0, 0, 0, 0, 0, 0, 0, 0, 0, 0, 0, 0, 0, 0, 0, 0, 0, 0, 0, 0, 0, 0, 0]
     = Inr (Internal 4 (Leaf 2 32) (Internal 2 (Leaf 1 65) (Leaf 1 66)))"
    by code_simp
  from prefix_free_table[OF h] h show ?thesis by auto
qed

subsection \<open>C6: the tie-break of get_smallest\<close>

text \<open>
  C6: on a forest that is not empty, \<open>get_smallest\<close> returns the node at some position
  \<open>k\<close> and the forest without that position, where no node has a smaller frequency than
  the one at \<open>k\<close> and every node before \<open>k\<close> has a strictly greater one: the first
  minimum. The functions have no other input than their arguments, so two trees built
  from the same frequency table give the same encoding table.
\<close>

theorem get_smallest_first_minimum:
  assumes "forest \<noteq> []"
  shows "(\<exists>k<length forest.
       get_smallest forest = Inr (forest ! k, take k forest @ drop (Suc k) forest) \<and>
       (\<forall>j<length forest. get_frequency (forest ! k) \<le> get_frequency (forest ! j)) \<and>
       (\<forall>j<k. get_frequency (forest ! k) < get_frequency (forest ! j))) \<and>
     (build_huffman_tree fs = Inr t1 \<and> build_huffman_tree fs = Inr t2 \<longrightarrow>
        build_encoding_table t1 = build_encoding_table t2)"
  using get_smallest_first_min[OF assms] by (auto simp: first_min_def)

theorem get_smallest_first_minimum_witness:
  "[Leaf 2 65, Leaf 1 66, Leaf 1 67] \<noteq> [] \<and>
   get_smallest [Leaf 2 65, Leaf 1 66, Leaf 1 67] = Inr (Leaf 1 66, [Leaf 2 65, Leaf 1 67]) \<and>
   (\<exists>k<length [Leaf 2 65, Leaf 1 66, Leaf 1 67].
      get_smallest [Leaf 2 65, Leaf 1 66, Leaf 1 67]
        = Inr ([Leaf 2 65, Leaf 1 66, Leaf 1 67] ! k,
               take k [Leaf 2 65, Leaf 1 66, Leaf 1 67] @ drop (Suc k) [Leaf 2 65, Leaf 1 66, Leaf 1 67]) \<and>
      (\<forall>j<length [Leaf 2 65, Leaf 1 66, Leaf 1 67].
         get_frequency ([Leaf 2 65, Leaf 1 66, Leaf 1 67] ! k)
           \<le> get_frequency ([Leaf 2 65, Leaf 1 66, Leaf 1 67] ! j)) \<and>
      (\<forall>j<k. get_frequency ([Leaf 2 65, Leaf 1 66, Leaf 1 67] ! k)
           < get_frequency ([Leaf 2 65, Leaf 1 66, Leaf 1 67] ! j)))"
proof -
  have ne: "[Leaf 2 65, Leaf 1 66, Leaf 1 67] \<noteq> []" by simp
  have g: "get_smallest [Leaf 2 65, Leaf 1 66, Leaf 1 67] = Inr (Leaf 1 66, [Leaf 2 65, Leaf 1 67])"
    by code_simp
  show ?thesis using ne g get_smallest_first_minimum[OF ne, THEN conjunct1] by blast
qed

subsection \<open>C7: characters outside the alphabet in encode\<close>

text \<open>
  C7 states that \<open>encode\<close> fails on every input with a character outside the alphabet.
  With the table of the tree for one \<open>A\<close> and one \<open>B\<close>, the input \<open>@[0\<close> has three such
  characters and is encoded: \<open>@\<close> is at index -1 and \<open>[\<close> at index 26, both the slot of
  the space, and \<open>0\<close> is at index -17, the empty slot of \<open>K\<close>.
\<close>

theorem encode_accepts_counterexample:
  "build_encoding_table (Internal 4 (Leaf 2 32) (Internal 2 (Leaf 1 65) (Leaf 1 66)))
     = Inr [py ''10'', py ''11'', [], [], [], [], [], [], [], [], [], [], [], [], [], [], [], [],
            [], [], [], [], [], [], [], [], py ''0''] \<and>
   \<not> in_alphabet (of_char CHR ''@'') \<and> \<not> in_alphabet (of_char CHR ''['') \<and>
   \<not> in_alphabet (of_char CHR ''0'') \<and>
   encode (py ''@[0'')
     [py ''10'', py ''11'', [], [], [], [], [], [], [], [], [], [], [], [], [], [], [], [],
      [], [], [], [], [], [], [], [], py ''0'']
     = Inr (py ''00'')"
  by code_simp

text \<open>
  C7 as the program has it, for a table of 27 entries: \<open>encode\<close> fails, with
  \<open>IndexError\<close>, exactly on the inputs with a character other than the space whose code
  point is below 38 or above 91. The code points 38 to 64 and 91 are outside the
  alphabet and are encoded, by the table entry that the subscript reaches.
\<close>

theorem encode_rejects_outside_window:
  assumes "length table = 27"
  shows "encode s table =
     (if \<forall>c \<in> set s. c = 32 \<or> (38 \<le> c \<and> c \<le> 91)
      then Inr (concat (map (\<lambda>c. table ! table_index c) s))
      else Inl IndexError)"
  using encode_loop_accepted[OF assms, of s "[]"] by (simp add: encode_def accepted_def)

theorem encode_rejects_outside_window_witness:
  "length (replicate 27 [49 :: nat]) = 27 \<and>
   encode (py ''A!'') (replicate 27 [49]) = Inl IndexError \<and>
   encode (py ''A@'') (replicate 27 [49]) = Inr [49, 49]"
  using encode_rejects_outside_window[of "replicate 27 [49]" "py ''A!''"]
    encode_rejects_outside_window[of "replicate 27 [49]" "py ''A@''"]
  by (simp add: py_def table_index_def)

subsection \<open>C8: normalization\<close>

text \<open>
  C8 states that the filter returns only \<open>A\<close> to \<open>Z\<close> and spaces for every text, and that
  \<open>Hello, World! 123\<close> becomes \<open>HELLO WORLD\<close>. The space between \<open>!\<close> and \<open>1\<close> is kept, so
  the result has a space at its end; and for the one-character input e with acute
  accent (233) the result is E with acute accent (201), which is not among \<open>A\<close> to \<open>Z\<close>.
\<close>

theorem filter_counterexample:
  "filter_uppercase_and_spaces (py ''Hello, World! 123'') = py ''HELLO WORLD '' \<and>
   filter_uppercase_and_spaces (py ''Hello, World! 123'') \<noteq> py ''HELLO WORLD'' \<and>
   filter_uppercase_and_spaces [233] = [201] \<and> \<not> in_alphabet 201"
  by (simp add: filter_uppercase_and_spaces_def upper_def upper_char_def isalpha_def py_def
      in_alphabet_def)

text \<open>
  C8 for ASCII text: the result is the input without the characters that are neither
  ASCII letters nor spaces, with the lower-case letters turned to upper case; it holds
  only \<open>A\<close> to \<open>Z\<close> and spaces; and \<open>Hello, World! 123\<close> becomes \<open>HELLO WORLD\<close> followed by
  one space.
\<close>

theorem filter_ascii_contract:
  assumes "\<forall>c \<in> set s. c < 128"
  shows "filter_uppercase_and_spaces s
       = map ascii_upper (filter (\<lambda>c. ascii_letter c \<or> c = 32) s) \<and>
     (\<forall>c \<in> set (filter_uppercase_and_spaces s). in_alphabet c) \<and>
     filter_uppercase_and_spaces (py ''Hello, World! 123'') = py ''HELLO WORLD ''"
proof -
  have e: "filter_uppercase_and_spaces s = map ascii_upper (filter (\<lambda>c. ascii_letter c \<or> c = 32) s)"
    by (rule filter_ascii[OF assms])
  have "\<forall>c \<in> set (map ascii_upper (filter (\<lambda>c. ascii_letter c \<or> c = 32) s)). in_alphabet c"
    by (auto simp: ascii_upper_def ascii_letter_def in_alphabet_def)
  moreover have "filter_uppercase_and_spaces (py ''Hello, World! 123'') = py ''HELLO WORLD ''"
    by (simp add: filter_uppercase_and_spaces_def upper_def upper_char_def isalpha_def py_def)
  ultimately show ?thesis using e by simp
qed

theorem filter_ascii_contract_witness:
  "list_all (\<lambda>c. c < 128) (py ''a-Z 9'') \<and>
   filter_uppercase_and_spaces (py ''a-Z 9'') = py ''AZ '' \<and>
   list_all in_alphabet (filter_uppercase_and_spaces (py ''a-Z 9''))"
proof -
  have h: "\<forall>c \<in> set (py ''a-Z 9''). c < 128" by (simp add: py_def)
  have v: "map ascii_upper (filter (\<lambda>c. ascii_letter c \<or> c = 32) (py ''a-Z 9'')) = py ''AZ ''"
    by (simp add: py_def ascii_upper_def ascii_letter_def)
  from filter_ascii_contract[OF h] h v show ?thesis by (simp add: list_all_iff)
qed

subsection \<open>C9: HELLO WORLD\<close>

text \<open>
  C9 gives 11 as the weight of the space leaf for \<open>HELLO WORLD\<close>. The text has ten
  letters, the frequencies add up to 10, and the space leaf has weight 10.
\<close>

theorem hello_world_counterexample:
  "count_frequencies (py ''HELLO WORLD'')
     = Inr [0, 0, 0, 1, 1, 0, 0, 1, 0, 0, 0, 3, 0, 0, 2, 0, 0, 1, 0, 0, 0, 0, 1, 0, 0, 0] \<and>
   initialize_forest [0, 0, 0, 1, 1, 0, 0, 1, 0, 0, 0, 3, 0, 0, 2, 0, 0, 1, 0, 0, 0, 0, 1, 0, 0, 0]
     = Inr [Leaf 1 68, Leaf 1 69, Leaf 1 72, Leaf 3 76, Leaf 2 79, Leaf 1 82, Leaf 1 87, Leaf 10 32] \<and>
   initialize_forest [0, 0, 0, 1, 1, 0, 0, 1, 0, 0, 0, 3, 0, 0, 2, 0, 0, 1, 0, 0, 0, 0, 1, 0, 0, 0]
     \<noteq> Inr [Leaf 1 68, Leaf 1 69, Leaf 1 72, Leaf 3 76, Leaf 2 79, Leaf 1 82, Leaf 1 87, Leaf 11 32]"
  by code_simp

text \<open>
  C9 with the weight 10: the filter leaves \<open>HELLO WORLD\<close> unchanged; the frequencies are
  D, E, H, R, W once, O twice, L three times; the space leaf has weight 10; the tree and
  the table are as shown; the code of the space has one bit and no symbol of the tree
  has a shorter code (the entries of the letters that do not occur are empty); and
  encoding then decoding gives \<open>HELLO WORLD\<close> back.
\<close>

theorem hello_world_scenario:
  "filter_uppercase_and_spaces (py ''HELLO WORLD'') = py ''HELLO WORLD'' \<and>
   count_frequencies (py ''HELLO WORLD'')
     = Inr [0, 0, 0, 1, 1, 0, 0, 1, 0, 0, 0, 3, 0, 0, 2, 0, 0, 1, 0, 0, 0, 0, 1, 0, 0, 0] \<and>
   initialize_forest [0, 0, 0, 1, 1, 0, 0, 1, 0, 0, 0, 3, 0, 0, 2, 0, 0, 1, 0, 0, 0, 0, 1, 0, 0, 0]
     = Inr [Leaf 1 68, Leaf 1 69, Leaf 1 72, Leaf 3 76, Leaf 2 79, Leaf 1 82, Leaf 1 87, Leaf 10 32] \<and>
   build_huffman_tree [0, 0, 0, 1, 1, 0, 0, 1, 0, 0, 0, 3, 0, 0, 2, 0, 0, 1, 0, 0, 0, 0, 1, 0, 0, 0]
     = Inr (Internal 20 (Leaf 10 32)
         (Internal 10
           (Internal 4 (Internal 2 (Leaf 1 68) (Leaf 1 69)) (Internal 2 (Leaf 1 72) (Leaf 1 82)))
           (Internal 6 (Leaf 3 76) (Internal 3 (Leaf 1 87) (Leaf 2 79))))) \<and>
   build_encoding_table (Internal 20 (Leaf 10 32)
         (Internal 10
           (Internal 4 (Internal 2 (Leaf 1 68) (Leaf 1 69)) (Internal 2 (Leaf 1 72) (Leaf 1 82)))
           (Internal 6 (Leaf 3 76) (Internal 3 (Leaf 1 87) (Leaf 2 79)))))
     = Inr [[], [], [], py ''1000'', py ''1001'', [], [], py ''1010'', [], [], [], py ''110'', [], [],
            py ''1111'', [], [], py ''1011'', [], [], [], [], py ''1110'', [], [], [], py ''0''] \<and>
   list_all
     (\<lambda>s. length
        ([[], [], [], py ''1000'', py ''1001'', [], [], py ''1010'', [], [], [], py ''110'', [], [],
          py ''1111'', [], [], py ''1011'', [], [], [], [], py ''1110'', [], [], [], py ''0'']
         ! slot 32)
       \<le> length
        ([[], [], [], py ''1000'', py ''1001'', [], [], py ''1010'', [], [], [], py ''110'', [], [],
          py ''1111'', [], [], py ''1011'', [], [], [], [], py ''1110'', [], [], [], py ''0'']
         ! slot s))
     (symbols (Internal 20 (Leaf 10 32)
         (Internal 10
           (Internal 4 (Internal 2 (Leaf 1 68) (Leaf 1 69)) (Internal 2 (Leaf 1 72) (Leaf 1 82)))
           (Internal 6 (Leaf 3 76) (Internal 3 (Leaf 1 87) (Leaf 2 79)))))) \<and>
   roundtrip (py ''HELLO WORLD'') = Inr (py ''HELLO WORLD'')"
proof -
  have "roundtrip (py ''HELLO WORLD'') = Inr (py ''HELLO WORLD'')"
    by (rule roundtrip_with_letter) (simp_all add: py_def in_alphabet_def)
  moreover have "filter_uppercase_and_spaces (py ''HELLO WORLD'') = py ''HELLO WORLD''"
    by (simp add: filter_uppercase_and_spaces_def upper_def upper_char_def isalpha_def py_def)
  moreover have "count_frequencies (py ''HELLO WORLD'')
     = Inr [0, 0, 0, 1, 1, 0, 0, 1, 0, 0, 0, 3, 0, 0, 2, 0, 0, 1, 0, 0, 0, 0, 1, 0, 0, 0]"
    by code_simp
  moreover have "initialize_forest [0, 0, 0, 1, 1, 0, 0, 1, 0, 0, 0, 3, 0, 0, 2, 0, 0, 1, 0, 0, 0, 0, 1, 0, 0, 0]
     = Inr [Leaf 1 68, Leaf 1 69, Leaf 1 72, Leaf 3 76, Leaf 2 79, Leaf 1 82, Leaf 1 87, Leaf 10 32]"
    by code_simp
  moreover have "build_huffman_tree [0, 0, 0, 1, 1, 0, 0, 1, 0, 0, 0, 3, 0, 0, 2, 0, 0, 1, 0, 0, 0, 0, 1, 0, 0, 0]
     = Inr (Internal 20 (Leaf 10 32)
         (Internal 10
           (Internal 4 (Internal 2 (Leaf 1 68) (Leaf 1 69)) (Internal 2 (Leaf 1 72) (Leaf 1 82)))
           (Internal 6 (Leaf 3 76) (Internal 3 (Leaf 1 87) (Leaf 2 79)))))"
    by code_simp
  moreover have "build_encoding_table (Internal 20 (Leaf 10 32)
         (Internal 10
           (Internal 4 (Internal 2 (Leaf 1 68) (Leaf 1 69)) (Internal 2 (Leaf 1 72) (Leaf 1 82)))
           (Internal 6 (Leaf 3 76) (Internal 3 (Leaf 1 87) (Leaf 2 79)))))
     = Inr [[], [], [], py ''1000'', py ''1001'', [], [], py ''1010'', [], [], [], py ''110'', [], [],
            py ''1111'', [], [], py ''1011'', [], [], [], [], py ''1110'', [], [], [], py ''0'']"
    by code_simp
  moreover have "list_all
     (\<lambda>s. length
        ([[], [], [], py ''1000'', py ''1001'', [], [], py ''1010'', [], [], [], py ''110'', [], [],
          py ''1111'', [], [], py ''1011'', [], [], [], [], py ''1110'', [], [], [], py ''0'']
         ! slot 32)
       \<le> length
        ([[], [], [], py ''1000'', py ''1001'', [], [], py ''1010'', [], [], [], py ''110'', [], [],
          py ''1111'', [], [], py ''1011'', [], [], [], [], py ''1110'', [], [], [], py ''0'']
         ! slot s))
     (symbols (Internal 20 (Leaf 10 32)
         (Internal 10
           (Internal 4 (Internal 2 (Leaf 1 68) (Leaf 1 69)) (Internal 2 (Leaf 1 72) (Leaf 1 82)))
           (Internal 6 (Leaf 3 76) (Internal 3 (Leaf 1 87) (Leaf 2 79))))))"
    by (simp add: py_def slot_def)
  ultimately show ?thesis by blast
qed

subsection \<open>C10: letters that do not occur\<close>

text \<open>
  C10: in the table of the tree built from a frequency table, the entry of a letter
  whose frequency is zero is the empty string; \<open>encode\<close> of that letter alone is the
  empty bit-string, and an occurrence of the letter anywhere in an input changes
  nothing in the result of \<open>encode\<close>.
\<close>

theorem zero_frequency_empty_code:
  assumes "build_huffman_tree fs = Inr t" "i < 26" "fs ! i = 0"
  shows "\<exists>table. build_encoding_table t = Inr table \<and> table ! i = [] \<and>
     encode [i + 65] table = Inr [] \<and>
     (\<forall>xs ys. encode (xs @ [i + 65] @ ys) table = encode (xs @ ys) table)"
proof -
  note f = build_symbols_facts[OF assms(1)]
  obtain table where tb: "build_encoding_table t = Inr table" "length table = 27"
    "\<forall>i<27. i \<notin> slot ` set (symbols t) \<longrightarrow> table ! i = []"
    using build_table[OF assms(1)] by blast
  have "i \<notin> slot ` set (alphabet_of fs)"
    using assms(2,3) by (auto simp: alphabet_of_def present_def slot_def simp del: upt.simps)
  then have e: "table ! i = []" using tb(3) assms(2) f(3) by simp
  have g: "getitem table (int i) = Inr []"
    using e assms(2) tb(2) by (simp add: getitem_def py_index_def)
  then have one: "encode_loop [i + 65] table acc = Inr acc" for acc by simp
  have "encode (xs @ [i + 65] @ ys) table = encode (xs @ ys) table" for xs ys
    unfolding encode_def
    by (simp only: encode_loop_append[of xs] encode_loop_append[of "[i + 65]"] one sum.case)
  with tb(1) e one[of "[]"] show ?thesis by (simp add: encode_def)
qed

theorem zero_frequency_empty_code_witness:
  "build_huffman_tree [1, 1, 0, 0, 0, 0, 0, 0, 0, 0, 0, 0, 0, 0, 0, 0, 0, 0, 0, 0, 0, 0, 0, 0, 0, 0]
     = Inr (Internal 4 (Leaf 2 32) (Internal 2 (Leaf 1 65) (Leaf 1 66))) \<and>
   (2 :: nat) < 26 \<and>
   [1, 1, 0, 0, 0, 0, 0, 0, 0, 0, 0, 0, 0, 0, 0, 0, 0, 0, 0, 0, 0, 0, 0, 0, 0, 0 :: int] ! 2 = 0 \<and>
   (\<exists>table. build_encoding_table (Internal 4 (Leaf 2 32) (Internal 2 (Leaf 1 65) (Leaf 1 66))) = Inr table \<and>
      table ! 2 = [] \<and> encode [67] table = Inr [] \<and>
      encode ([65] @ [67] @ [66]) table = encode ([65] @ [66]) table)"
proof -
  have h: "build_huffman_tree [1, 1, 0, 0, 0, 0, 0, 0, 0, 0, 0, 0, 0, 0, 0, 0, 0, 0, 0, 0, 0, 0, 0, 0, 0, 0]
     = Inr (Internal 4 (Leaf 2 32) (Internal 2 (Leaf 1 65) (Leaf 1 66)))"
    by code_simp
  have i: "(2 :: nat) < 26" by simp
  have z: "[1, 1, 0, 0, 0, 0, 0, 0, 0, 0, 0, 0, 0, 0, 0, 0, 0, 0, 0, 0, 0, 0, 0, 0, 0, 0 :: int] ! 2 = 0"
    by simp
  from zero_frequency_empty_code[OF h i z] obtain table where tb:
    "build_encoding_table (Internal 4 (Leaf 2 32) (Internal 2 (Leaf 1 65) (Leaf 1 66))) = Inr table"
    "table ! 2 = []" "encode [2 + 65] table = Inr []"
    "\<forall>xs ys. encode (xs @ [2 + 65] @ ys) table = encode (xs @ ys) table"
    by blast
  have n: "(2 :: nat) + 65 = 67" by simp
  have "encode ([65] @ [2 + 65] @ [66]) table = encode ([65] @ [66]) table"
    using tb(4) by blast
  with tb(1,2,3) have "build_encoding_table (Internal 4 (Leaf 2 32) (Internal 2 (Leaf 1 65) (Leaf 1 66))) = Inr table \<and>
      table ! 2 = [] \<and> encode [67] table = Inr [] \<and>
      encode ([65] @ [67] @ [66]) table = encode ([65] @ [66]) table"
    unfolding n by blast
  with h i z show ?thesis by blast
qed

end
